theory Spec2Isabelle
  imports Main
begin

section \<open>The asynchronous validation hook (hooks/useAsyncValidation.ts)\<close>

subsection \<open>Data\<close>

text \<open>The interface \<open>ValidationResult\<close> and the two constant results of the module.\<close>

record ValidationResult =
  isValid :: bool
  message :: string

definition INITIAL_VALIDATION_RESULT :: ValidationResult where
  "INITIAL_VALIDATION_RESULT = \<lparr>isValid = True, message = ''''\<rparr>"

definition EXCEPTION_VALIDATION_RESULT :: ValidationResult where
  "EXCEPTION_VALIDATION_RESULT =
     \<lparr>isValid = False, message = ''An error occurred while validating. Try again later.''\<rparr>"

text \<open>
  How the promise returned by \<open>validateAsync\<close> settles: it resolves with a
  \<open>ValidationResult\<close>, or it rejects (or the call throws inside the \<open>try\<close>) with an
  error, of which the model keeps the detail text.
\<close>

datatype settlement = Resolved ValidationResult | Rejected string

text \<open>
  Every run of the effect creates a closure: the \<open>value\<close> it captured, its own
  \<open>isMounted\<close> variable, and the promise it awaits. \<open>settled\<close> records that the
  promise has settled and the rest of \<open>validate\<close> has run; a promise settles once.
\<close>

record effect_run =
  input :: string
  isMounted :: bool
  settled :: bool

text \<open>
  The state of one use of the hook: the three \<open>useState\<close> cells (\<open>val\<close> is the cell
  \<open>value\<close>), the effect runs so far in the order in which they started (the index of
  a run in the list identifies its validation cycle), and whether the component
  has been unmounted.
\<close>

record hook =
  val :: string
  result :: ValidationResult
  pending :: bool
  effects :: "effect_run list"
  unmounted :: bool

subsection \<open>Operations\<close>

text \<open>The three \<open>useState\<close> calls: the state of the first render.\<close>

definition useState_init :: "string \<Rightarrow> hook" where
  "useState_init initialValue =
     \<lparr>val = initialValue, result = INITIAL_VALIDATION_RESULT, pending = False,
      effects = [], unmounted = False\<rparr>"

text \<open>
  The body of the effect up to the \<open>await\<close>: \<open>isMounted = true\<close>, then \<open>validate()\<close>
  calls \<open>setPending(true)\<close> and \<open>validateAsync(value)\<close> and suspends.
\<close>

definition run_effect :: "hook \<Rightarrow> hook" where
  "run_effect h =
     h\<lparr>pending := True,
       effects := effects h @ [\<lparr>input = val h, isMounted = True, settled = False\<rparr>]\<rparr>"

text \<open>
  The function the effect returns, \<open>isMounted = false\<close>. It is called for the latest
  run of the effect, before the effect runs again and at unmount.
\<close>

definition cleanup :: "hook \<Rightarrow> hook" where
  "cleanup h =
     (case effects h of
        [] \<Rightarrow> h
      | _ # _ \<Rightarrow>
          h\<lparr>effects := (effects h)[length (effects h) - 1 :=
                          (last (effects h))\<lparr>isMounted := False\<rparr>]\<rparr>)"

text \<open>Mounting: the first render, after which the effect runs for the first time.\<close>

definition mount :: "string \<Rightarrow> hook" where
  "mount initialValue = run_effect (useState_init initialValue)"

text \<open>
  The render that follows a call \<open>setValue(newValue)\<close>, with the effects it causes;
  the call alone, which only schedules that render, is \<open>setValue_call\<close> below. The
  state setter of an unmounted component does nothing. Setting the value the cell
  already holds leaves the dependency list \<open>[value, validateAsync]\<close> unchanged, so the
  effect does not run. Otherwise the cell is updated, the previous run is cleaned
  up and the effect runs for the new value.
\<close>

definition setValue :: "string \<Rightarrow> hook \<Rightarrow> hook" where
  "setValue newValue h =
     (if unmounted h then h
      else if newValue = val h then h
      else run_effect (cleanup (h\<lparr>val := newValue\<rparr>)))"

text \<open>\<open>initValue\<close>, and the render that its call of \<open>setValue\<close> schedules.\<close>

definition initValue :: "string \<Rightarrow> hook \<Rightarrow> hook" where
  "initValue newValue h = setValue newValue h"

text \<open>
  \<open>handleChange\<close> likewise; it receives the event, and its argument here is
  \<open>e.target.value\<close>.
\<close>

definition handleChange :: "string \<Rightarrow> hook \<Rightarrow> hook" where
  "handleChange targetValue h = setValue targetValue h"

text \<open>
  What \<open>validate\<close> commits once its promise has settled: the \<open>try\<close> branch stores the
  returned result, the \<open>catch\<close> branch the fixed one, and \<open>finally\<close> clears
  \<open>pending\<close>, each only if the closure's \<open>isMounted\<close> is still true.
\<close>

definition commit :: "effect_run \<Rightarrow> settlement \<Rightarrow> hook \<Rightarrow> hook" where
  "commit c out h =
     (if isMounted c
      then h\<lparr>result := (case out of
                          Resolved validationResult \<Rightarrow> validationResult
                        | Rejected error \<Rightarrow> EXCEPTION_VALIDATION_RESULT),
             pending := False\<rparr>
      else h)"

text \<open>
  The promise of the effect run number \<open>i\<close> settles with \<open>out\<close> and \<open>validate\<close>
  resumes. A run that does not exist or whose promise has already settled cannot
  settle: the state stays as it is.
\<close>

definition resume :: "nat \<Rightarrow> settlement \<Rightarrow> hook \<Rightarrow> hook" where
  "resume i out h =
     (if i < length (effects h) \<and> \<not> settled (effects h ! i)
      then commit (effects h ! i) out
             (h\<lparr>effects := (effects h)[i := (effects h ! i)\<lparr>settled := True\<rparr>]\<rparr>)
      else h)"

text \<open>Unmounting runs the cleanup of the latest effect run.\<close>

definition unmount :: "hook \<Rightarrow> hook" where
  "unmount h = (cleanup h)\<lparr>unmounted := True\<rparr>"

subsection \<open>Runs of the hook\<close>

text \<open>
  What can happen to a mounted hook: the parent or the view sets a value, the promise
  of some effect run settles, the component is unmounted. When a promise settles and
  with what is the choice of the validation function, so the event carries both. A
  call of a setter is taken here together with the render it schedules and the
  effect of that render; calls that share one render act as the last of them.
\<close>

datatype event =
    InitValue string
  | HandleChange string
  | Settle nat settlement
  | Unmount

fun step :: "hook \<Rightarrow> event \<Rightarrow> hook" where
  "step h (InitValue v) = initValue v h"
| "step h (HandleChange v) = handleChange v h"
| "step h (Settle i out) = resume i out h"
| "step h Unmount = unmount h"

definition run :: "hook \<Rightarrow> event list \<Rightarrow> hook" where
  "run h evs = foldl step h evs"

text \<open>What the view reads from the hook: \<open>value\<close>, the spread \<open>result\<close> and \<open>pending\<close>.\<close>

definition exposed :: "hook \<Rightarrow> string \<times> bool \<times> string \<times> bool" where
  "exposed h = (val h, isValid (result h), message (result h), pending h)"

text \<open>
  The index of the most recently started effect run, and the property that every
  earlier run has been cleaned up.
\<close>

definition latest :: "hook \<Rightarrow> nat" where
  "latest h = length (effects h) - 1"

definition older_cleaned :: "hook \<Rightarrow> bool" where
  "older_cleaned h = list_all (\<lambda>c. \<not> isMounted c) (butlast (effects h))"

text \<open>
  The invariant of every run: there is an effect run, every run but the latest has been
  cleaned up, the latest one is live exactly as long as the component is mounted, and
  while it is mounted \<open>pending\<close> says whether the latest run is outstanding, and the
  latest run validates the current value.
\<close>

definition wf :: "hook \<Rightarrow> bool" where
  "wf h =
     (effects h \<noteq> [] \<and> older_cleaned h \<and>
      isMounted (last (effects h)) = (\<not> unmounted h) \<and>
      (\<not> unmounted h \<longrightarrow>
         pending h = (\<not> settled (last (effects h))) \<and> input (last (effects h)) = val h))"

text \<open>
  The effect runs that a change of \<open>value\<close> caused: all but the first one, which is the
  run at mount.
\<close>

definition change_cycles :: "hook \<Rightarrow> effect_run list" where
  "change_cycles h = tl (effects h)"

subsection \<open>Between two renders\<close>

text \<open>
  The setter of \<open>useState\<close> does not write the cell that the render has read: it
  queues its argument, and the next render reads the last queued value. The object
  the hook returned in the latest render, which is what a caller of \<open>initValue\<close> or
  \<open>handleChange\<close> holds, keeps the \<open>value\<close> of that render, a \<open>const\<close> of the render.
  \<open>rendered\<close> is the state as of the latest render and its effects, \<open>queued\<close> the
  arguments of the calls of \<open>setValue\<close> since then.
\<close>

record component =
  rendered :: hook
  queued :: "string list"

definition mounted_with :: "string \<Rightarrow> component" where
  "mounted_with initialValue = \<lparr>rendered = mount initialValue, queued = []\<rparr>"

text \<open>The call of the setter alone, as \<open>initValue\<close> and \<open>handleChange\<close> make it.\<close>

definition setValue_call :: "string \<Rightarrow> component \<Rightarrow> component" where
  "setValue_call newValue c =
     (if unmounted (rendered c) then c else c\<lparr>queued := queued c @ [newValue]\<rparr>)"

definition initValue_call :: "string \<Rightarrow> component \<Rightarrow> component" where
  "initValue_call newValue c = setValue_call newValue c"

definition handleChange_call :: "string \<Rightarrow> component \<Rightarrow> component" where
  "handleChange_call targetValue c = setValue_call targetValue c"

text \<open>
  The render that React runs after the calls, with its effects: the value is the last
  one queued, and \<open>setValue\<close> above says what the render and the effects do with it.
\<close>

definition rerender :: "component \<Rightarrow> component" where
  "rerender c =
     (case queued c of
        [] \<Rightarrow> c
      | _ # _ \<Rightarrow> \<lparr>rendered = setValue (last (queued c)) (rendered c), queued = []\<rparr>)"

text \<open>Reading \<open>value\<close> from the object that the latest render returned.\<close>

definition read_value :: "component \<Rightarrow> string" where
  "read_value c = val (rendered c)"

section \<open>The form (components/Form.tsx)\<close>

subsection \<open>Data and operations\<close>

text \<open>
  \<open>isNameValidWrapper\<close> awaits \<open>isNameValid(name)\<close> of the mock API, whose promise
  resolves to a boolean or rejects; the argument here is how that promise settles
  (\<open>Inl\<close> the error). A rejection passes through the wrapper.
\<close>

definition isNameValidWrapper :: "string + bool \<Rightarrow> settlement" where
  "isNameValidWrapper r =
     (case r of
        Inl error \<Rightarrow> Rejected error
      | Inr valid \<Rightarrow>
          Resolved \<lparr>isValid = valid,
                    message = (if valid then '''' else ''this name has already been taken'')\<rparr>)"

record DataItem =
  name :: string
  location :: string

text \<open>
  The state of the component: the hook for the name field and the four \<open>useState\<close>
  cells (\<open>selectedLocation\<close> is the cell \<open>location\<close>, which shares its name with the
  field of \<open>DataItem\<close>).
\<close>

record form =
  nameValidation :: hook
  selectedLocation :: string
  locationError :: string
  locationOptions :: "string list"
  items :: "DataItem list"

text \<open>The first render and the effects of the mount; \<open>getLocations()\<close> is then in flight.\<close>

definition Form_mount :: form where
  "Form_mount =
     \<lparr>nameValidation = mount '''', selectedLocation = '''', locationError = '''',
      locationOptions = [], items = []\<rparr>"

text \<open>What \<open>fetchLocations\<close> does once the promise of \<open>getLocations()\<close> has settled.\<close>

definition fetchLocations :: "string + string list \<Rightarrow> form \<Rightarrow> form" where
  "fetchLocations r f =
     (case r of
        Inr locations \<Rightarrow> f\<lparr>locationOptions := locations\<rparr>
      | Inl error \<Rightarrow>
          f\<lparr>locationError :=
               ''An error occurred while fetching locations. Try reloading the page.'',
            selectedLocation := ''''\<rparr>)"

text \<open>\<open>data.optionValue ?? ""\<close>: an undefined option value selects the empty string.\<close>

definition handleLocationSelect :: "string option \<Rightarrow> form \<Rightarrow> form" where
  "handleLocationSelect optionValue f =
     f\<lparr>selectedLocation := (case optionValue of None \<Rightarrow> '''' | Some v \<Rightarrow> v)\<rparr>"

definition handleClearClick :: "form \<Rightarrow> form" where
  "handleClearClick f =
     f\<lparr>nameValidation := initValue '''' (nameValidation f), selectedLocation := ''''\<rparr>"

text \<open>
  \<open>canAdd\<close> is memoised on exactly the three values it is computed from, so it is
  their conjunction in every render.
\<close>

definition canAdd :: "form \<Rightarrow> bool" where
  "canAdd f =
     (isValid (result (nameValidation f)) \<and>
      length (val (nameValidation f)) > 0 \<and>
      length (selectedLocation f) > 0)"

definition handleAddClick :: "form \<Rightarrow> form" where
  "handleAddClick f =
     (if canAdd f
      then handleClearClick
             (f\<lparr>items := items f @
                  [\<lparr>name = val (nameValidation f), location = selectedLocation f\<rparr>]\<rparr>)
      else f)"

subsection \<open>Runs of the form\<close>

datatype form_event =
    NameInput string
  | NameChecked nat "string + bool"
  | LocationsFetched "string + string list"
  | LocationSelect "string option"
  | ClearClick
  | AddClick

fun form_step :: "form \<Rightarrow> form_event \<Rightarrow> form" where
  "form_step f (NameInput v) = f\<lparr>nameValidation := handleChange v (nameValidation f)\<rparr>"
| "form_step f (NameChecked i r) =
     f\<lparr>nameValidation := resume i (isNameValidWrapper r) (nameValidation f)\<rparr>"
| "form_step f (LocationsFetched r) = fetchLocations r f"
| "form_step f (LocationSelect optionValue) = handleLocationSelect optionValue f"
| "form_step f ClearClick = handleClearClick f"
| "form_step f AddClick = handleAddClick f"

definition form_run :: "form \<Rightarrow> form_event list \<Rightarrow> form" where
  "form_run f evs = foldl form_step f evs"

definition rows_filled :: "form \<Rightarrow> bool" where
  "rows_filled f = list_all (\<lambda>row. name row \<noteq> '''' \<and> location row \<noteq> '''') (items f)"

section \<open>Properties of the hook\<close>

subsection \<open>The invariant\<close>

lemma cleanup_snoc:
  "effects h = cs @ [c] \<Longrightarrow> cleanup h = h\<lparr>effects := cs @ [c\<lparr>isMounted := False\<rparr>]\<rparr>"
  by (cases cs) (simp_all add: cleanup_def)

lemma wf_snoc:
  assumes "wf h"
  shows "\<exists>cs c. effects h = cs @ [c] \<and> list_all (\<lambda>c. \<not> isMounted c) cs \<and>
           isMounted c = (\<not> unmounted h) \<and>
           (\<not> unmounted h \<longrightarrow> pending h = (\<not> settled c) \<and> input c = val h)"
proof -
  from assms have "effects h \<noteq> []" by (simp add: wf_def)
  then obtain cs c where e: "effects h = cs @ [c]" by (metis rev_exhaust)
  with assms show ?thesis by (simp add: wf_def older_cleaned_def)
qed

lemma wf_mount: "wf (mount iv)"
  by (simp add: wf_def mount_def run_effect_def useState_init_def older_cleaned_def)

lemma wf_setValue: "wf h \<Longrightarrow> wf (setValue v h)"
proof -
  assume w: "wf h"
  then obtain cs c where e: "effects h = cs @ [c]" and o: "list_all (\<lambda>c. \<not> isMounted c) cs"
    using wf_snoc by blast
  show ?thesis
  proof (cases "unmounted h \<or> v = val h")
    case True
    with w show ?thesis by (auto simp: setValue_def)
  next
    case False
    have "cleanup (h\<lparr>val := v\<rparr>) = h\<lparr>val := v, effects := cs @ [c\<lparr>isMounted := False\<rparr>]\<rparr>"
      using e by (simp add: cleanup_snoc)
    with False o show ?thesis
      by (simp add: setValue_def run_effect_def wf_def older_cleaned_def butlast_append)
  qed
qed

lemma wf_unmount: "wf h \<Longrightarrow> wf (unmount h)"
proof -
  assume w: "wf h"
  then obtain cs c where e: "effects h = cs @ [c]" and o: "list_all (\<lambda>c. \<not> isMounted c) cs"
    using wf_snoc by blast
  then show ?thesis
    by (simp add: unmount_def cleanup_snoc wf_def older_cleaned_def)
qed

lemma list_all_update:
  "list_all P cs \<Longrightarrow> P d \<Longrightarrow> list_all P (cs[i := d])"
  by (induction cs arbitrary: i) (auto split: nat.splits)

lemma resume_older:
  assumes "effects h = cs @ [c]" "i < length cs" "\<not> settled (cs ! i)" "\<not> isMounted (cs ! i)"
  shows "resume i out h = h\<lparr>effects := cs[i := (cs ! i)\<lparr>settled := True\<rparr>] @ [c]\<rparr>"
  using assms by (simp add: resume_def commit_def nth_append list_update_append1)

lemma resume_latest:
  assumes "effects h = cs @ [c]" "\<not> settled c"
  shows "resume (length cs) out h =
           commit c out (h\<lparr>effects := cs @ [c\<lparr>settled := True\<rparr>]\<rparr>)"
  using assms by (simp add: resume_def)

lemma resume_noop:
  "\<not> (i < length (effects h) \<and> \<not> settled (effects h ! i)) \<Longrightarrow> resume i out h = h"
  by (auto simp: resume_def)

lemma wf_resume: "wf h \<Longrightarrow> wf (resume i out h)"
proof -
  assume w: "wf h"
  then obtain cs c where e: "effects h = cs @ [c]" and o: "list_all (\<lambda>c. \<not> isMounted c) cs"
    and m: "isMounted c = (\<not> unmounted h)"
    and p: "\<not> unmounted h \<longrightarrow> pending h = (\<not> settled c) \<and> input c = val h"
    using wf_snoc by blast
  show ?thesis
  proof (cases "i < length (effects h) \<and> \<not> settled (effects h ! i)")
    case False
    with w show ?thesis by (simp add: resume_noop)
  next
    case live: True
    show ?thesis
    proof (cases "i < length cs")
      case True
      with o have n: "\<not> isMounted (cs ! i)" by (simp add: list_all_length)
      from live True e have s: "\<not> settled (cs ! i)" by (simp add: nth_append)
      have "list_all (\<lambda>c. \<not> isMounted c) (cs[i := (cs ! i)\<lparr>settled := True\<rparr>])"
        using o n by (simp add: list_all_update)
      with m p show ?thesis
        by (simp add: resume_older [OF e True s n] wf_def older_cleaned_def)
    next
      case False
      with live e have i: "i = length cs" by simp
      with live e have s: "\<not> settled c" by simp
      from o m p show ?thesis
        by (simp add: i resume_latest [OF e s] commit_def wf_def older_cleaned_def)
    qed
  qed
qed

lemma wf_step: "wf h \<Longrightarrow> wf (step h e)"
  by (cases e) (simp_all add: wf_setValue wf_resume wf_unmount initValue_def handleChange_def)

lemma wf_run: "wf h \<Longrightarrow> wf (run h evs)"
  unfolding run_def by (induction evs arbitrary: h) (simp_all add: wf_step)


lemma wf_reachable: "wf (run (mount iv) evs)"
  by (simp add: wf_run wf_mount)

lemma unmounted_step: "unmounted (step h e) = (unmounted h \<or> e = Unmount)"
  by (cases e)
     (auto simp: initValue_def handleChange_def setValue_def run_effect_def cleanup_def
        resume_def commit_def unmount_def split: list.splits)

lemma unmounted_run: "unmounted (run h evs) = (unmounted h \<or> Unmount \<in> set evs)"
  unfolding run_def by (induction evs arbitrary: h) (auto simp: unmounted_step)

lemma unmounted_mount: "\<not> unmounted (mount iv)"
  by (simp add: mount_def run_effect_def useState_init_def)

lemma resume_stale:
  assumes "wf h" "i \<noteq> latest h"
  shows "val (resume i out h) = val h \<and> result (resume i out h) = result h \<and>
         pending (resume i out h) = pending h"
proof -
  from assms(1) obtain cs c where e: "effects h = cs @ [c]"
    and o: "list_all (\<lambda>c. \<not> isMounted c) cs"
    using wf_snoc by blast
  show ?thesis
  proof (cases "i < length cs \<and> \<not> settled (cs ! i)")
    case True
    with o have "\<not> isMounted (cs ! i)" by (simp add: list_all_length)
    with True e show ?thesis by (simp add: resume_older)
  next
    case False
    with e assms(2) have "\<not> (i < length (effects h) \<and> \<not> settled (effects h ! i))"
      by (auto simp: latest_def nth_append)
    then show ?thesis by (simp add: resume_noop)
  qed
qed

lemma resume_active:
  assumes "wf h" "\<not> unmounted h" "\<not> settled (last (effects h))"
  shows "resume (latest h) out h =
           h\<lparr>effects := butlast (effects h) @ [(last (effects h))\<lparr>settled := True\<rparr>],
             result := (case out of Resolved r \<Rightarrow> r | Rejected e \<Rightarrow> EXCEPTION_VALIDATION_RESULT),
             pending := False\<rparr>"
proof -
  from assms(1) obtain cs c where e: "effects h = cs @ [c]"
    and m: "isMounted c = (\<not> unmounted h)"
    using wf_snoc by blast
  from e assms(3) have s: "\<not> settled c" by simp
  from e have l: "latest h = length cs" by (simp add: latest_def)
  from m assms(2) e show ?thesis
    by (simp add: l resume_latest [OF e s] commit_def)
qed

lemma resume_unmounted:
  assumes "wf h" "unmounted h"
  shows "val (resume i out h) = val h \<and> result (resume i out h) = result h \<and>
         pending (resume i out h) = pending h"
proof (cases "i = latest h")
  case False
  with assms(1) show ?thesis by (rule resume_stale)
next
  case True
  from assms(1) obtain cs c where e: "effects h = cs @ [c]"
    and m: "isMounted c = (\<not> unmounted h)"
    using wf_snoc by blast
  from e have l: "latest h = length cs" by (simp add: latest_def)
  show ?thesis
  proof (cases "settled c")
    case True
    with e l \<open>i = latest h\<close> show ?thesis by (simp add: resume_noop)
  next
    case False
    with e l m assms(2) \<open>i = latest h\<close> show ?thesis
      by (simp add: resume_latest [OF e False] commit_def)
  qed
qed

lemmas hook_defs = run_def mount_def useState_init_def run_effect_def cleanup_def
  setValue_def initValue_def handleChange_def commit_def resume_def unmount_def latest_def

subsection \<open>Superseded validations\<close>

text \<open>
  C1. In every state \<open>h\<close> that a mounted hook reaches, by any sequence of value changes,
  settlements and an unmount, let the effect run \<open>i\<close> (the validation started for a
  value \<open>v1\<close>) settle when a later run \<open>j\<close> (for a later value \<open>v2\<close>) has already
  started. Whatever the outcome, the settlement of run \<open>i\<close> leaves \<open>value\<close>, \<open>result\<close>
  and \<open>pending\<close> as they are. More generally a settlement that changes \<open>result\<close> is
  that of the most recently started run, in whatever order the promises settle.
\<close>

theorem stale_cycle_never_commits:
  assumes "h = run (mount initialValue) evs" and "i < j" and "j < length (effects h)"
  shows "val (resume i out h) = val h \<and> result (resume i out h) = result h \<and>
         pending (resume i out h) = pending h \<and>
         (\<forall>k out'. result (resume k out' h) \<noteq> result h \<longrightarrow> k = latest h)"
proof -
  have w: "wf h" using assms(1) by (simp add: wf_reachable)
  from assms have "i \<noteq> latest h" by (simp add: latest_def)
  with w have "val (resume i out h) = val h \<and> result (resume i out h) = result h \<and>
         pending (resume i out h) = pending h" by (rule resume_stale)
  moreover have "\<forall>k out'. result (resume k out' h) \<noteq> result h \<longrightarrow> k = latest h"
    using w resume_stale by blast
  ultimately show ?thesis by simp
qed

text \<open>
  The name field goes from \<open>""\<close> to \<open>"a"\<close> to \<open>"ab"\<close>; the validation of \<open>"a"\<close> then
  resolves as taken, and the result stays the initial one.
\<close>

theorem stale_cycle_never_commits_witness:
  "(1::nat) < 2 \<and>
   2 < length (effects (run (mount '''') [HandleChange ''a'', HandleChange ''ab''])) \<and>
   map input (effects (run (mount '''') [HandleChange ''a'', HandleChange ''ab''])) =
     ['''', ''a'', ''ab''] \<and>
   result (resume 1 (Resolved \<lparr>isValid = False, message = ''this name has already been taken''\<rparr>)
             (run (mount '''') [HandleChange ''a'', HandleChange ''ab''])) =
     INITIAL_VALIDATION_RESULT"
  using stale_cycle_never_commits
    [of "run (mount '''') [HandleChange ''a'', HandleChange ''ab'']" "''''"
        "[HandleChange ''a'', HandleChange ''ab'']" 1 2
        "Resolved \<lparr>isValid = False, message = ''this name has already been taken''\<rparr>"]
  by (simp add: hook_defs)

subsection \<open>The pending flag\<close>

lemma pending_after_latest:
  assumes "wf h" and "\<not> unmounted h"
  shows "pending (resume (latest h) out h) = False"
proof (cases "settled (last (effects h))")
  case True
  from assms have a: "effects h \<noteq> []" and b: "pending h = (\<not> settled (last (effects h)))"
    by (simp_all add: wf_def)
  from True a have "\<not> (latest h < length (effects h) \<and> \<not> settled (effects h ! latest h))"
    by (simp add: latest_def last_conv_nth)
  then have "resume (latest h) out h = h" by (rule resume_noop)
  with b True show ?thesis by simp
next
  case False
  with assms show ?thesis by (simp add: resume_active)
qed

text \<open>
  C2 (as amended). For every sequence of value changes and settlements of a mounted
  hook, \<open>pending\<close> is true exactly while the most recently started effect run is
  outstanding, where the runs are the one the mount starts for the initial value and
  the ones the changes of value start. Once the most recently started run settles
  (resolving or rejecting) \<open>pending\<close> is false, and the settlement of a superseded run
  leaves \<open>pending\<close> as it is.
\<close>

theorem pending_tracks_latest_cycle:
  assumes "h = run (mount initialValue) evs" and "Unmount \<notin> set evs"
  shows "effects h \<noteq> [] \<and>
         pending h = (\<not> settled (last (effects h))) \<and>
         pending (resume (latest h) out h) = False \<and>
         (i < latest h \<longrightarrow> pending (resume i out h) = pending h)"
proof -
  have w: "wf h" using assms(1) by (simp add: wf_reachable)
  have m: "\<not> unmounted h" using assms by (simp add: unmounted_run unmounted_mount)
  from w m have a: "effects h \<noteq> []" and b: "pending h = (\<not> settled (last (effects h)))"
    by (simp_all add: wf_def)
  have c: "pending (resume (latest h) out h) = False"
    using w m by (rule pending_after_latest)
  have d: "i < latest h \<longrightarrow> pending (resume i out h) = pending h"
    using w resume_stale [of h i out] by auto
  from a b c d show ?thesis by simp
qed

text \<open>
  The value changes to \<open>"a"\<close> and the superseded validation of the initial value
  resolves: \<open>pending\<close> stays true, until the validation of \<open>"a"\<close> rejects.
\<close>

theorem pending_tracks_latest_cycle_witness:
  "Unmount \<notin> set [HandleChange ''a'', Settle 0 (Resolved \<lparr>isValid = False, message = ''no''\<rparr>)] \<and>
   pending (run (mount '''')
     [HandleChange ''a'', Settle 0 (Resolved \<lparr>isValid = False, message = ''no''\<rparr>)]) \<and>
   \<not> pending (resume 1 (Rejected ''timeout'') (run (mount '''')
     [HandleChange ''a'', Settle 0 (Resolved \<lparr>isValid = False, message = ''no''\<rparr>)]))"
  using pending_tracks_latest_cycle
    [of "run (mount '''')
           [HandleChange ''a'', Settle 0 (Resolved \<lparr>isValid = False, message = ''no''\<rparr>)]"
        "''''" "[HandleChange ''a'', Settle 0 (Resolved \<lparr>isValid = False, message = ''no''\<rparr>)]"
        "Rejected ''timeout''" 0]
  by (simp add: hook_defs)

text \<open>
  C2 as stated fails right after the mount: no value has changed, no effect run comes
  from a change of value, and \<open>pending\<close> is true, for the validation of the initial
  value that the mount started.
\<close>

theorem pending_at_mount_counterexample:
  "pending (run (mount ''seed'') []) \<and> change_cycles (run (mount ''seed'') []) = []"
  by (simp add: hook_defs change_cycles_def)

subsection \<open>Unmounting\<close>

lemma exposed_unmount: "exposed (unmount h) = exposed h"
  by (simp add: exposed_def unmount_def cleanup_def split: list.splits)

lemma unmounted_unmount: "unmounted (unmount h)"
  by (simp add: unmount_def)

lemma exposed_resume_unmounted:
  "wf h \<Longrightarrow> unmounted h \<Longrightarrow> exposed (resume i out h) = exposed h"
  by (simp add: exposed_def resume_unmounted)

lemma unmounted_resume: "unmounted (resume i out h) = unmounted h"
  by (simp add: resume_def commit_def)

lemma exposed_settlements_unmounted:
  "wf h \<Longrightarrow> unmounted h \<Longrightarrow>
     exposed (run h (map (\<lambda>(k, out). Settle k out) ss)) = exposed h"
proof (induction ss arbitrary: h)
  case Nil
  then show ?case by (simp add: run_def)
next
  case (Cons s ss)
  obtain k out where s: "s = (k, out)" by (cases s)
  have "exposed (run (resume k out h) (map (\<lambda>(k, out). Settle k out) ss)) =
          exposed (resume k out h)"
    using Cons.prems by (intro Cons.IH) (simp_all add: wf_resume unmounted_resume)
  with Cons.prems s show ?case
    by (simp add: run_def exposed_resume_unmounted)
qed

text \<open>
  C3. The component is unmounted in a state \<open>h\<close> in which the effect run \<open>i\<close> is
  outstanding. When the promise of that run later resolves or rejects, \<open>value\<close>,
  \<open>result\<close> (so \<open>isValid\<close> and \<open>message\<close>) and \<open>pending\<close> are what they were in \<open>h\<close>;
  and so they are after any sequence \<open>ss\<close> of settlements that follows the unmount.
\<close>

theorem no_commit_after_unmount:
  assumes "h = run (mount initialValue) evs"
    and "i < length (effects h)" and "\<not> settled (effects h ! i)"
  shows "val (resume i out (unmount h)) = val h \<and>
         result (resume i out (unmount h)) = result h \<and>
         pending (resume i out (unmount h)) = pending h \<and>
         exposed (run (unmount h) (map (\<lambda>(k, out). Settle k out) ss)) = exposed h"
proof -
  have w: "wf (unmount h)" using assms(1) by (simp add: wf_reachable wf_unmount)
  have u: "unmounted (unmount h)" by (rule unmounted_unmount)
  have e: "exposed (unmount h) = exposed h" by (rule exposed_unmount)
  from w u have "exposed (resume i out (unmount h)) = exposed (unmount h)"
    by (rule exposed_resume_unmounted)
  with e have "exposed (resume i out (unmount h)) = exposed h" by simp
  moreover have "result (resume i out (unmount h)) = result h"
    using resume_unmounted [OF w u, of i out] by (simp add: unmount_def cleanup_def split: list.splits)
  moreover have "exposed (run (unmount h) (map (\<lambda>(k, out). Settle k out) ss)) = exposed h"
    using exposed_settlements_unmounted [OF w u] e by simp
  ultimately show ?thesis by (simp add: exposed_def)
qed

text \<open>
  The field is unmounted while the validation of \<open>"a"\<close> is outstanding; that validation
  then resolves as taken, and the state is still the one before the unmount.
\<close>

theorem no_commit_after_unmount_witness:
  "(1::nat) < length (effects (run (mount '''') [HandleChange ''a''])) \<and>
   \<not> settled (effects (run (mount '''') [HandleChange ''a'']) ! 1) \<and>
   exposed (resume 1 (Resolved \<lparr>isValid = False, message = ''taken''\<rparr>)
              (unmount (run (mount '''') [HandleChange ''a'']))) = (''a'', True, '''', True)"
  using no_commit_after_unmount
    [of "run (mount '''') [HandleChange ''a'']" "''''" "[HandleChange ''a'']" 1
        "Resolved \<lparr>isValid = False, message = ''taken''\<rparr>" "[]"]
  by (simp add: hook_defs exposed_def INITIAL_VALIDATION_RESULT_def)

subsection \<open>Committing a settlement\<close>

text \<open>
  C4. In a state \<open>h\<close> that a hook reaches, still mounted and with its most recently
  started effect run outstanding (the active run, which validates the current value),
  let the promise of that run reject or the call throw, with any error. The settlement
  returns a state, in which \<open>result\<close> is exactly the fixed
  \<open>{isValid: false, message: "An error occurred while validating. Try again later."}\<close>
  and \<open>pending\<close> is false; and the state after a rejection of any run is the same
  whatever the error is, so no detail of the error reaches the message.
\<close>

theorem rejection_commits_generic_result:
  assumes "h = run (mount initialValue) evs"
    and "\<not> unmounted h" and "\<not> settled (last (effects h))"
  shows "input (last (effects h)) = val h \<and>
         result (resume (latest h) (Rejected error) h) = EXCEPTION_VALIDATION_RESULT \<and>
         isValid (result (resume (latest h) (Rejected error) h)) = False \<and>
         message (result (resume (latest h) (Rejected error) h)) =
           ''An error occurred while validating. Try again later.'' \<and>
         pending (resume (latest h) (Rejected error) h) = False \<and>
         (\<forall>k error'. resume k (Rejected error') h = resume k (Rejected error) h)"
proof -
  have w: "wf h" using assms(1) by (simp add: wf_reachable)
  from w assms(2) have "input (last (effects h)) = val h" by (simp add: wf_def)
  moreover have "result (resume (latest h) (Rejected error) h) = EXCEPTION_VALIDATION_RESULT"
    and "pending (resume (latest h) (Rejected error) h) = False"
    using w assms(2,3) by (simp_all add: resume_active)
  moreover have "\<forall>k error'. resume k (Rejected error') h = resume k (Rejected error) h"
    by (simp add: resume_def commit_def)
  ultimately show ?thesis by (simp add: EXCEPTION_VALIDATION_RESULT_def)
qed

text \<open>The validation of \<open>"x"\<close> rejects while \<open>"x"\<close> is the current value.\<close>

theorem rejection_commits_generic_result_witness:
  "\<not> unmounted (run (mount '''') [HandleChange ''x'']) \<and>
   \<not> settled (last (effects (run (mount '''') [HandleChange ''x'']))) \<and>
   input (last (effects (run (mount '''') [HandleChange ''x'']))) = ''x'' \<and>
   exposed (resume 1 (Rejected ''ECONNRESET'') (run (mount '''') [HandleChange ''x''])) =
     (''x'', False, ''An error occurred while validating. Try again later.'', False)"
  using rejection_commits_generic_result
    [of "run (mount '''') [HandleChange ''x'']" "''''" "[HandleChange ''x'']" "''ECONNRESET''"]
  by (simp add: hook_defs exposed_def)

text \<open>
  C5. In a state \<open>h\<close> that a hook reaches, still mounted and with its most recently
  started effect run outstanding, let the promise of that run resolve with
  \<open>validationResult\<close>. Then \<open>result\<close> is exactly \<open>validationResult\<close> and \<open>pending\<close> is
  false. With \<open>{isValid: true, message: ""}\<close> returned, \<open>isValid\<close> is true and \<open>message\<close>
  is the empty string.
\<close>

theorem resolution_commits_returned_result:
  assumes "h = run (mount initialValue) evs"
    and "\<not> unmounted h" and "\<not> settled (last (effects h))"
  shows "input (last (effects h)) = val h \<and>
         result (resume (latest h) (Resolved validationResult) h) = validationResult \<and>
         pending (resume (latest h) (Resolved validationResult) h) = False \<and>
         isValid (result (resume (latest h) (Resolved \<lparr>isValid = True, message = ''''\<rparr>) h)) \<and>
         message (result (resume (latest h) (Resolved \<lparr>isValid = True, message = ''''\<rparr>) h)) = ''''"
proof -
  have w: "wf h" using assms(1) by (simp add: wf_reachable)
  from w assms(2) have "input (last (effects h)) = val h" by (simp add: wf_def)
  moreover have "\<And>r. result (resume (latest h) (Resolved r) h) = r"
    and "pending (resume (latest h) (Resolved validationResult) h) = False"
    using w assms(2,3) by (simp_all add: resume_active)
  ultimately show ?thesis by simp
qed

text \<open>
  The validation of \<open>"taken"\<close> had rejected; the value changes to \<open>"free"\<close>, whose
  validation resolves as valid.
\<close>

theorem resolution_commits_returned_result_witness:
  "\<not> unmounted (run (mount '''')
       [HandleChange ''taken'', Settle 1 (Rejected ''500''), HandleChange ''free'']) \<and>
   \<not> settled (last (effects (run (mount '''')
       [HandleChange ''taken'', Settle 1 (Rejected ''500''), HandleChange ''free'']))) \<and>
   exposed (run (mount '''')
       [HandleChange ''taken'', Settle 1 (Rejected ''500''), HandleChange ''free'']) =
     (''free'', False, ''An error occurred while validating. Try again later.'', True) \<and>
   exposed (resume 2 (Resolved \<lparr>isValid = True, message = ''''\<rparr>) (run (mount '''')
       [HandleChange ''taken'', Settle 1 (Rejected ''500''), HandleChange ''free''])) =
     (''free'', True, '''', False)"
  using resolution_commits_returned_result
    [of "run (mount '''')
           [HandleChange ''taken'', Settle 1 (Rejected ''500''), HandleChange ''free'']"
        "''''" "[HandleChange ''taken'', Settle 1 (Rejected ''500''), HandleChange ''free'']"
        "\<lparr>isValid = True, message = ''''\<rparr>"]
  by (simp add: hook_defs exposed_def EXCEPTION_VALIDATION_RESULT_def)

subsection \<open>Setting the value\<close>

lemma cleanup_cases:
  "cleanup h = h \<or>
   (\<exists>cs c. effects h = cs @ [c] \<and> cleanup h = h\<lparr>effects := cs @ [c\<lparr>isMounted := False\<rparr>]\<rparr>)"
proof (cases "effects h" rule: rev_cases)
  case Nil
  then show ?thesis by (simp add: cleanup_def)
next
  case (snoc cs c)
  then show ?thesis by (simp add: cleanup_snoc)
qed

lemma length_effects_cleanup: "length (effects (cleanup h)) = length (effects h)"
  using cleanup_cases [of h] by auto

lemma val_cleanup: "val (cleanup h) = val h"
  using cleanup_cases [of h] by auto

lemma result_cleanup: "result (cleanup h) = result h"
  using cleanup_cases [of h] by auto

lemma val_setValue: "\<not> unmounted h \<Longrightarrow> val (setValue v h) = v"
  by (simp add: setValue_def run_effect_def val_cleanup)

lemma result_setValue: "result (setValue v h) = result h"
  by (simp add: setValue_def run_effect_def result_cleanup)

lemma rerender_after_call:
  "\<not> unmounted (rendered c) \<Longrightarrow>
     rerender (setValue_call v c) = \<lparr>rendered = setValue v (rendered c), queued = []\<rparr>"
  by (cases "queued c") (simp_all add: rerender_def setValue_call_def)

text \<open>
  C6 (as amended). On a mounted hook, a call of \<open>initValue\<close> or \<open>handleChange\<close>
  schedules the update: \<open>value\<close> read right after the call, from the render that is
  current, is still the former value. The render that the call schedules, for which
  no validation has to settle, exposes the value just set (the value of the latest
  call, if there were several), with \<open>result\<close> as it was; when no other call was
  queued, the state after that render is the one \<open>setValue\<close> describes.
\<close>

theorem value_updates_on_next_render:
  assumes "\<not> unmounted (rendered c)"
  shows "read_value (initValue_call newValue c) = read_value c \<and>
         read_value (handleChange_call newValue c) = read_value c \<and>
         read_value (rerender (initValue_call newValue c)) = newValue \<and>
         read_value (rerender (handleChange_call newValue c)) = newValue \<and>
         result (rendered (rerender (initValue_call newValue c))) = result (rendered c) \<and>
         result (rendered (rerender (handleChange_call newValue c))) = result (rendered c) \<and>
         rendered (rerender (initValue_call newValue c)) = initValue newValue (rendered c) \<and>
         rendered (rerender (handleChange_call newValue c)) = handleChange newValue (rendered c)"
proof -
  have a: "read_value (setValue_call newValue c) = read_value c"
    by (simp add: read_value_def setValue_call_def)
  have b: "rerender (setValue_call newValue c) =
             \<lparr>rendered = setValue newValue (rendered c), queued = []\<rparr>"
    using assms by (rule rerender_after_call)
  from assms have "val (setValue newValue (rendered c)) = newValue"
    by (rule val_setValue)
  with a b show ?thesis
    by (simp add: initValue_call_def handleChange_call_def read_value_def result_setValue
          initValue_def handleChange_def)
qed

text \<open>
  \<open>initValue("seed")\<close> right after the mount, the validation of \<open>""\<close> outstanding;
  and two calls of \<open>handleChange\<close> before one render, which start one validation.
\<close>

theorem value_updates_on_next_render_witness:
  "\<not> unmounted (rendered (mounted_with '''')) \<and>
   read_value (initValue_call ''seed'' (mounted_with '''')) = '''' \<and>
   exposed (rendered (rerender (initValue_call ''seed'' (mounted_with '''')))) =
     (''seed'', True, '''', True) \<and>
   map settled (effects (rendered (rerender (initValue_call ''seed'' (mounted_with ''''))))) =
     [False, False] \<and>
   map input (effects (rendered (rerender
     (handleChange_call ''b'' (handleChange_call ''a'' (mounted_with '''')))))) = ['''', ''b'']"
  using value_updates_on_next_render [of "mounted_with ''''" "''seed''"]
  by (simp add: hook_defs exposed_def INITIAL_VALIDATION_RESULT_def mounted_with_def
        initValue_call_def handleChange_call_def setValue_call_def rerender_def read_value_def)

text \<open>
  C6 as stated fails: right after \<open>initValue("seed")\<close> on a field mounted with \<open>""\<close>,
  the value read is not \<open>"seed"\<close>.
\<close>

theorem value_read_after_call_counterexample:
  "read_value (initValue_call ''seed'' (mounted_with '''')) \<noteq> ''seed''"
  by (simp add: read_value_def initValue_call_def setValue_call_def mounted_with_def
        mount_def run_effect_def useState_init_def)

text \<open>
  C7 (as amended). Calling \<open>handleChange(v)\<close> twice in a row with the same \<open>v\<close> starts
  at most one validation: the second call, a re-set to the value the field already has,
  starts none and leaves the whole state as the first call left it. A call starts a
  validation exactly when the hook is mounted and \<open>v\<close> differs from the current value.
\<close>

theorem repeated_value_starts_no_cycle:
  "handleChange v (handleChange v h) = handleChange v h \<and>
   (v = val h \<longrightarrow> handleChange v h = h) \<and>
   length (effects (handleChange v h)) =
     (if unmounted h \<or> v = val h then length (effects h) else length (effects h) + 1)"
  by (simp add: handleChange_def setValue_def run_effect_def length_effects_cleanup
        val_cleanup)

theorem repeated_value_starts_no_cycle_witness:
  "''a'' = val (handleChange ''a'' (mount '''')) \<and>
   handleChange ''a'' (handleChange ''a'' (mount '''')) = handleChange ''a'' (mount '''') \<and>
   length (effects (handleChange ''a'' (mount ''''))) = 2"
  using repeated_value_starts_no_cycle [of "''a''" "mount ''''"]
        repeated_value_starts_no_cycle [of "''a''" "handleChange ''a'' (mount '''')"]
  by (simp add: hook_defs)

text \<open>
  C7 as stated fails: after the mount, two calls \<open>handleChange("a")\<close> in a row have
  started one validation, not two.
\<close>

theorem repeated_value_counterexample:
  "length (effects (handleChange ''a'' (handleChange ''a'' (mount '''')))) \<noteq>
     length (effects (mount '''')) + 2"
  by (simp add: hook_defs)

subsection \<open>The state at mount\<close>


section \<open>Properties of the form\<close>

lemmas form_defs = form_run_def Form_mount_def fetchLocations_def handleLocationSelect_def
  handleClearClick_def canAdd_def handleAddClick_def isNameValidWrapper_def rows_filled_def

lemma unmounted_setValue: "unmounted (setValue v h) = unmounted h"
  using unmounted_step [of h "InitValue v"] by (simp add: initValue_def)

lemma name_field_mounted_step:
  "unmounted (nameValidation (form_step f e)) = unmounted (nameValidation f)"
  by (cases e)
     (simp_all add: handleChange_def initValue_def unmounted_setValue unmounted_resume
        fetchLocations_def handleLocationSelect_def handleClearClick_def handleAddClick_def
        split: sum.splits)

lemma name_field_mounted: "\<not> unmounted (nameValidation (form_run Form_mount evs))"
proof -
  have "unmounted (nameValidation (form_run f evs)) = unmounted (nameValidation f)" for f
    unfolding form_run_def
    by (induction evs arbitrary: f) (simp_all add: name_field_mounted_step)
  then show ?thesis by (simp add: Form_mount_def unmounted_mount)
qed

lemma value_clears: "\<not> unmounted h \<Longrightarrow> val (initValue v h) = v"
  by (simp add: initValue_def setValue_def run_effect_def val_cleanup)

lemma items_step:
  "items (form_step f e) =
     (if e = AddClick \<and> canAdd f
      then items f @ [\<lparr>name = val (nameValidation f), location = selectedLocation f\<rparr>]
      else items f)"
  by (cases e)
     (simp_all add: fetchLocations_def handleLocationSelect_def handleClearClick_def
        handleAddClick_def split: sum.splits)

lemma rows_filled_step: "rows_filled f \<Longrightarrow> rows_filled (form_step f e)"
  by (auto simp: rows_filled_def items_step canAdd_def)

lemma rows_filled_run: "rows_filled f \<Longrightarrow> rows_filled (form_run f evs)"
  unfolding form_run_def by (induction evs arbitrary: f) (simp_all add: rows_filled_step)

text \<open>
  C9. In every state the form reaches from its mount, by any sequence of its
  operations (typing a name, a name validation settling, the locations arriving or
  failing, selecting a location, Clear, Add), every row of \<open>items\<close> has a non-empty
  name and a non-empty location. An operation changes \<open>items\<close> only if it is
  \<open>handleAddClick\<close> in a state where \<open>canAdd\<close> holds, that is the name is valid, the
  name is not empty and the location is not empty.
\<close>

theorem rows_have_name_and_location:
  "rows_filled (form_run Form_mount evs) \<and>
   (\<forall>row \<in> set (items (form_run Form_mount evs)). name row \<noteq> '''' \<and> location row \<noteq> '''') \<and>
   (items (form_step f e) \<noteq> items f \<longrightarrow>
      e = AddClick \<and> isValid (result (nameValidation f)) \<and>
      length (val (nameValidation f)) > 0 \<and> length (selectedLocation f) > 0)"
proof -
  have "rows_filled Form_mount" by (simp add: rows_filled_def Form_mount_def)
  then have r: "rows_filled (form_run Form_mount evs)" by (rule rows_filled_run)
  then have "\<forall>row \<in> set (items (form_run Form_mount evs)). name row \<noteq> '''' \<and> location row \<noteq> ''''"
    by (simp add: rows_filled_def list_all_iff)
  moreover have "items (form_step f e) \<noteq> items f \<longrightarrow>
      e = AddClick \<and> isValid (result (nameValidation f)) \<and>
      length (val (nameValidation f)) > 0 \<and> length (selectedLocation f) > 0"
    by (simp add: items_step canAdd_def)
  ultimately show ?thesis using r by simp
qed

text \<open>A name is typed, a location selected, and Add is clicked.\<close>

theorem rows_have_name_and_location_witness:
  "items (form_run Form_mount [NameInput ''Ann'', LocationSelect (Some ''Oslo''), AddClick]) =
     [\<lparr>name = ''Ann'', location = ''Oslo''\<rparr>] \<and>
   items (form_step (form_run Form_mount [NameInput ''Ann'', LocationSelect (Some ''Oslo'')])
            AddClick) \<noteq>
     items (form_run Form_mount [NameInput ''Ann'', LocationSelect (Some ''Oslo'')]) \<and>
   rows_filled (form_run Form_mount [NameInput ''Ann'', LocationSelect (Some ''Oslo''), AddClick])"
  using rows_have_name_and_location
    [of "[NameInput ''Ann'', LocationSelect (Some ''Oslo''), AddClick]"
        "form_run Form_mount [NameInput ''Ann'', LocationSelect (Some ''Oslo'')]" AddClick]
  by (simp add: form_defs hook_defs INITIAL_VALIDATION_RESULT_def)

text \<open>
  C10. In every state \<open>f\<close> the form reaches from its mount: if \<open>canAdd\<close> holds,
  \<open>handleAddClick\<close> makes \<open>items\<close> the former list followed by the one row
  \<open>{name: current name value, location: current location}\<close>, and the name field and
  the location are the empty string afterwards; if \<open>canAdd\<close> does not hold, the state
  after \<open>handleAddClick\<close> is \<open>f\<close>.
\<close>

theorem handleAddClick_appends_and_clears:
  assumes "f = form_run Form_mount evs"
  shows "(canAdd f \<longrightarrow>
            items (handleAddClick f) =
              items f @ [\<lparr>name = val (nameValidation f), location = selectedLocation f\<rparr>] \<and>
            val (nameValidation (handleAddClick f)) = '''' \<and>
            selectedLocation (handleAddClick f) = '''') \<and>
         (\<not> canAdd f \<longrightarrow> handleAddClick f = f)"
proof -
  have "\<not> unmounted (nameValidation f)" using assms by (simp add: name_field_mounted)
  then have "val (initValue '''' (nameValidation f)) = ''''"
    by (simp add: value_clears)
  then show ?thesis by (simp add: handleAddClick_def handleClearClick_def)
qed

text \<open>
  With a row in the table, a second name and location are added; and right after
  the mount, where \<open>canAdd\<close> does not hold, Add changes nothing.
\<close>

theorem handleAddClick_appends_and_clears_witness:
  "canAdd (form_run Form_mount
     [NameInput ''Ann'', LocationSelect (Some ''Oslo''), AddClick,
      NameInput ''Bob'', LocationSelect (Some ''Rome'')]) \<and>
   items (handleAddClick (form_run Form_mount
     [NameInput ''Ann'', LocationSelect (Some ''Oslo''), AddClick,
      NameInput ''Bob'', LocationSelect (Some ''Rome'')])) =
     [\<lparr>name = ''Ann'', location = ''Oslo''\<rparr>, \<lparr>name = ''Bob'', location = ''Rome''\<rparr>] \<and>
   \<not> canAdd (form_run Form_mount []) \<and>
   handleAddClick (form_run Form_mount []) = form_run Form_mount []"
  using handleAddClick_appends_and_clears
    [of "form_run Form_mount
           [NameInput ''Ann'', LocationSelect (Some ''Oslo''), AddClick,
            NameInput ''Bob'', LocationSelect (Some ''Rome'')]"
        "[NameInput ''Ann'', LocationSelect (Some ''Oslo''), AddClick,
          NameInput ''Bob'', LocationSelect (Some ''Rome'')]"]
    handleAddClick_appends_and_clears [of "form_run Form_mount []" "[]"]
  by (simp add: form_defs hook_defs INITIAL_VALIDATION_RESULT_def)

end
